theory Spec2Isabelle
  imports Complex_Main
begin

section \<open>Tensors, shapes and the engine\<close>

text \<open>
  The operations of \<^verbatim>\<open>tfjs-core/src/ops\<close> are wrappers: they check their
  arguments, normalise shapes and hand the work to \<^verbatim>\<open>ENGINE.runKernel\<close>.
  A JavaScript \<^verbatim>\<open>number\<close> is modelled by a rational: shape extents,
  axes and repetition factors are compared and tested for being integers, never
  rounded, so the finite exact numbers are enough (NaN and the infinities are left out).
\<close>

type_synonym number = rat

datatype DataType = float32 | int32 | bool | complex64 | string

record Tensor =
  shape :: "number list"
  dtype :: DataType
  vals :: "number list"

text \<open>\<^verbatim>\<open>Tensor.rank\<close> is the length of the shape.\<close>

definition rank :: "Tensor \<Rightarrow> nat" where
  "rank t = length (shape t)"

text \<open>\<^verbatim>\<open>Tensor.size\<close> is the number of elements: the product of the extents.\<close>

definition size_of :: "Tensor \<Rightarrow> number" where
  "size_of t = prod_list (shape t)"

text \<open>
  Reading a JavaScript array: an index outside the array gives \<^verbatim>\<open>undefined\<close>,
  here \<open>None\<close>.
\<close>

definition js_nth :: "'a list \<Rightarrow> nat \<Rightarrow> 'a option" where
  "js_nth xs i = (if i < length xs then Some (xs ! i) else None)"

datatype kernel = Tile | Transpose | Multinomial | RealK | ImagK | NegK | ComplexK

datatype attrs =
    TileAttrs "number list"
  | TransposeAttrs "number list"
  | MultinomialAttrs number number bool
  | NoAttrs

text \<open>
  The engine is the external collaborator: a kernel name, the input tensors and the
  attributes give the output tensor. It is a parameter of every operation that
  dispatches. The dispatches made so far are kept in a log, so that "no kernel was
  dispatched" is a statement about the log.
\<close>

type_synonym engine = "kernel \<Rightarrow> Tensor list \<Rightarrow> attrs \<Rightarrow> Tensor"

type_synonym dispatch = "kernel \<times> Tensor list \<times> attrs"

definition runKernel ::
  "engine \<Rightarrow> kernel \<Rightarrow> Tensor list \<Rightarrow> attrs \<Rightarrow> dispatch list \<Rightarrow> Tensor \<times> dispatch list" where
  "runKernel eng k inputs a dlog = (eng k inputs a, dlog @ [(k, inputs, a)])"

text \<open>An engine for concrete runs: every kernel returns its first input.\<close>

definition echoEngine :: engine where
  "echoEngine k inputs a = hd inputs"

datatype error =
    RankMismatch nat nat
  | IncompatibleShapes "number list" "number list"
  | InvalidDimensions "number list"
  | PermRankMismatch nat "number list"
  | PermOutOfRange nat "number list"
  | TooFewOutcomes number
  | RankOfProbabilities nat

subsection \<open>Helpers that the operations import\<close>

text \<open>
  Modelled from the spec: \<^verbatim>\<open>assertNonNegativeIntegerDimensions\<close> of
  \<^verbatim>\<open>util_base\<close> is imported by \<^verbatim>\<open>broadcastTo\<close> and is not among the
  sources. The data model asks that "every axis extent is a non-negative integer";
  the check passes exactly on such shapes.
\<close>

definition isInteger :: "number \<Rightarrow> bool" where
  "isInteger d = (of_int \<lfloor>d\<rfloor> = d)"

definition assertNonNegativeIntegerDimensions :: "number list \<Rightarrow> bool" where
  "assertNonNegativeIntegerDimensions shp = list_all (\<lambda>dimSize. isInteger dimSize \<and> 0 \<le> dimSize) shp"

text \<open>
  Modelled from the spec: \<^verbatim>\<open>reshape\<close> of \<^verbatim>\<open>ops/reshape\<close> is not among the
  sources. The result has the requested shape and the data of its argument ("no data
  movement needed"). An extent written \<open>-1\<close>, as \<^verbatim>\<open>multinomial\<close> passes in
  \<^verbatim>\<open>[1, -1]\<close>, stands for the extent that keeps the number of elements.
\<close>

definition inferFromImplicitShape :: "number list \<Rightarrow> number \<Rightarrow> number list" where
  "inferFromImplicitShape shp sz =
     map (\<lambda>d. if d = - 1 then sz / prod_list (filter (\<lambda>e. e \<noteq> - 1) shp) else d) shp"

definition reshape :: "Tensor \<Rightarrow> number list \<Rightarrow> Tensor" where
  "reshape t newShape = t\<lparr>shape := inferFromImplicitShape newShape (size_of t)\<rparr>"

text \<open>
  Modelled from the spec: \<^verbatim>\<open>clone\<close> of \<^verbatim>\<open>ops/clone\<close> (and the method
  \<^verbatim>\<open>Tensor.clone\<close>) is not among the sources. The result is "a no-op copy": a
  tensor with the shape, the type and the values of its argument.
\<close>

definition clone :: "Tensor \<Rightarrow> Tensor" where
  "clone t = \<lparr>shape = shape t, dtype = dtype t, vals = vals t\<rparr>"

section \<open>broadcastTo\<close>

text \<open>
  \<^verbatim>\<open>while (newShape.length < shape.length) { newShape.unshift(1); }\<close>
  The second argument is \<^verbatim>\<open>shape.length\<close>.
\<close>

function unshiftLoop :: "number list \<Rightarrow> nat \<Rightarrow> number list" where
  "unshiftLoop newShape n =
     (if length newShape < n then unshiftLoop (1 # newShape) n else newShape)"
  by pat_completeness auto
termination
  by (relation "measure (\<lambda>(newShape, n). n - length newShape)") auto

declare unshiftLoop.simps [simp del]

text \<open>
  \<^verbatim>\<open>for (let i = shape.length - 1; i >= 0; i--)\<close>: the first argument is
  \<open>i + 1\<close>, so \<open>Suc i\<close> is the iteration at index \<open>i\<close> and \<open>0\<close> is the exit.
  \<open>reps\<close> starts as a copy of \<open>shape\<close> and \<open>i\<close> is below
  \<^verbatim>\<open>shape.length\<close>, so the assignment \<^verbatim>\<open>reps[i] = 1\<close> is always inside the
  array. The error message carries \<open>xShape\<close>, the shape of the argument before it
  was padded, and \<open>shape\<close>.
\<close>

fun repsLoop ::
  "nat \<Rightarrow> number list \<Rightarrow> number list \<Rightarrow> number list \<Rightarrow> number list \<Rightarrow> error + number list" where
  "repsLoop 0 xShape inputShape shp reps = Inr reps"
| "repsLoop (Suc i) xShape inputShape shp reps =
     (if js_nth inputShape i = js_nth shp i
        then repsLoop i xShape inputShape shp (reps[i := 1])
      else if js_nth inputShape i \<noteq> Some 1
        then Inl (IncompatibleShapes xShape shp)
      else repsLoop i xShape inputShape shp reps)"

text \<open>
  Lines 47 to 74 of the operation: the checks, the padding of the input and the
  repetition factors. The result is the (possibly reshaped) input and \<open>reps\<close>.
  The argument is taken as a tensor already (\<^verbatim>\<open>convertToTensor\<close> returns a
  tensor argument as it is).
\<close>

definition broadcastTo_reps :: "Tensor \<Rightarrow> number list \<Rightarrow> error + (Tensor \<times> number list)" where
  "broadcastTo_reps x shp =
     (let input = x;
          xShape = shape input
      in if \<not> assertNonNegativeIntegerDimensions shp then Inl (InvalidDimensions shp)
         else if length shp < rank input then Inl (RankMismatch (length shp) (rank input))
         else
           let input = (if length shp > rank input
                          then reshape input (unshiftLoop (shape input) (length shp))
                          else input);
               inputShape = shape input
           in case repsLoop (length shp) xShape inputShape shp shp of
                Inl e \<Rightarrow> Inl e
              | Inr reps \<Rightarrow> Inr (input, reps))"

text \<open>
  \<^verbatim>\<open>reps.map((n, i) => n > 1 ? i : -1).filter(i => i >= 0)\<close>: the axes whose
  repetition factor is above 1. \<open>axisOrMinusOne\<close> is the array that \<^verbatim>\<open>map\<close>
  returns.
\<close>

definition axisOrMinusOne :: "number list \<Rightarrow> number list" where
  "axisOrMinusOne reps =
     map (\<lambda>(n, i). if n > 1 then of_nat i else - 1) (zip reps [0..<length reps])"

definition tilingAxes :: "number list \<Rightarrow> number list" where
  "tilingAxes reps = filter (\<lambda>i. i \<ge> 0) (axisOrMinusOne reps)"

definition broadcastTo_op ::
  "engine \<Rightarrow> Tensor \<Rightarrow> number list \<Rightarrow> dispatch list \<Rightarrow> (error + Tensor) \<times> dispatch list" where
  "broadcastTo_op eng x shp dlog =
     (case broadcastTo_reps x shp of
        Inl e \<Rightarrow> (Inl e, dlog)
      | Inr (input, reps) \<Rightarrow>
          let axes = tilingAxes reps
          in if length axes = 0 then (Inr (clone input), dlog)
             else case runKernel eng Tile [input] (TileAttrs reps) dlog of
                    (res, dlog') \<Rightarrow> (Inr res, dlog'))"

text \<open>
  The spec's first step in its own words: "left-pad sourceShape with 1s until its rank
  equals targetShape's rank". The padding loop of the source is compared with it.
\<close>

definition spec_leftPad :: "number list \<Rightarrow> nat \<Rightarrow> number list" where
  "spec_leftPad sourceShape n = replicate (n - length sourceShape) 1 @ sourceShape"

subsection \<open>The arrays of broadcastTo in a store\<close>

text \<open>
  JavaScript arrays are objects: \<^verbatim>\<open>input.shape\<close> and \<^verbatim>\<open>shape\<close> are
  references, and \<^verbatim>\<open>unshift\<close> and \<^verbatim>\<open>reps[i] = 1\<close> write into the object they
  are applied to. Here the arrays live in a store: \<open>cells\<close> gives the contents at an
  address, and the addresses below \<open>nxt\<close> are the allocated ones.
\<close>

type_synonym addr = nat

record store =
  cells :: "addr \<Rightarrow> number list"
  nxt :: addr

text \<open>A new array (\<^verbatim>\<open>slice()\<close>, \<^verbatim>\<open>Array.from\<close>) takes the next address.\<close>

definition alloc :: "number list \<Rightarrow> store \<Rightarrow> addr \<times> store" where
  "alloc xs h = (nxt h, h\<lparr>cells := (cells h)(nxt h := xs), nxt := Suc (nxt h)\<rparr>)"

definition write_cell :: "addr \<Rightarrow> number list \<Rightarrow> store \<Rightarrow> store" where
  "write_cell a xs h = h\<lparr>cells := (cells h)(a := xs)\<rparr>"

text \<open>\<^verbatim>\<open>while (newShape.length < shape.length) { newShape.unshift(1); }\<close> on the store.\<close>

function unshiftLoop_store :: "addr \<Rightarrow> nat \<Rightarrow> store \<Rightarrow> store" where
  "unshiftLoop_store newShape n h =
     (if length (cells h newShape) < n
        then unshiftLoop_store newShape n (write_cell newShape (1 # cells h newShape) h)
      else h)"
  by pat_completeness auto
termination
  by (relation "measure (\<lambda>(newShape, n, h). n - length (cells h newShape))")
     (auto simp: write_cell_def)

declare unshiftLoop_store.simps [simp del]

text \<open>
  The loop over the axes on the store. Every iteration reads \<^verbatim>\<open>inputShape[i]\<close> and
  \<^verbatim>\<open>shape[i]\<close> from the store as it is then, and \<^verbatim>\<open>reps[i] = 1\<close> writes into
  the array at \<open>reps\<close>.
\<close>

fun repsLoop_store ::
  "nat \<Rightarrow> addr \<Rightarrow> addr \<Rightarrow> addr \<Rightarrow> addr \<Rightarrow> store \<Rightarrow> (error + addr \<times> addr) \<times> store" where
  "repsLoop_store 0 xShape inputShape shp reps h = (Inr (inputShape, reps), h)"
| "repsLoop_store (Suc i) xShape inputShape shp reps h =
     (if js_nth (cells h inputShape) i = js_nth (cells h shp) i
        then repsLoop_store i xShape inputShape shp reps
               (write_cell reps ((cells h reps)[i := 1]) h)
      else if js_nth (cells h inputShape) i \<noteq> Some 1
        then (Inl (IncompatibleShapes (cells h xShape) (cells h shp)), h)
      else repsLoop_store i xShape inputShape shp reps h)"

text \<open>
  Lines 47 to 74 on the store. \<open>xShape\<close> is the address of the shape array of the
  argument tensor, \<open>shp\<close> the address of the requested shape. The result is the
  address of the shape of the (possibly reshaped) input and the address of
  \<open>reps\<close>, or the error, together with the store after the call. The validation
  and \<^verbatim>\<open>reshape\<close> only read their arguments; the reshaped tensor has a shape array
  of its own.
\<close>

definition broadcastTo_store :: "addr \<Rightarrow> addr \<Rightarrow> store \<Rightarrow> (error + addr \<times> addr) \<times> store" where
  "broadcastTo_store xShape shp h =
     (if \<not> assertNonNegativeIntegerDimensions (cells h shp)
        then (Inl (InvalidDimensions (cells h shp)), h)
      else if length (cells h shp) < length (cells h xShape)
        then (Inl (RankMismatch (length (cells h shp)) (length (cells h xShape))), h)
      else
        let (inputShape, h1) =
              (if length (cells h shp) > length (cells h xShape)
                 then let (newShape, h') = alloc (cells h xShape) h;
                          h'' = unshiftLoop_store newShape (length (cells h' shp)) h'
                      in alloc (inferFromImplicitShape (cells h'' newShape)
                                  (prod_list (cells h'' xShape))) h''
               else (xShape, h));
            (reps, h2) = alloc (cells h1 shp) h1
        in repsLoop_store (length (cells h2 shp)) xShape inputShape shp reps h2)"

text \<open>
  Line 75 on the store: \<^verbatim>\<open>map\<close> and \<^verbatim>\<open>filter\<close> read the array they are
  applied to and each return a new array. The result has the address of \<open>axes\<close> as
  well.
\<close>

definition broadcastTo_store_axes ::
  "addr \<Rightarrow> addr \<Rightarrow> store \<Rightarrow> (error + addr \<times> addr \<times> addr) \<times> store" where
  "broadcastTo_store_axes xShape shp h =
     (case broadcastTo_store xShape shp h of
        (Inl e, h') \<Rightarrow> (Inl e, h')
      | (Inr (inputShape, reps), h') \<Rightarrow>
          let (mapped, h1) = alloc (axisOrMinusOne (cells h' reps)) h';
              (axes, h2) = alloc (filter (\<lambda>i. i \<ge> 0) (cells h1 mapped)) h1
          in (Inr (inputShape, reps, axes), h2))"

section \<open>transpose\<close>

text \<open>
  Modelled from the spec: \<^verbatim>\<open>real\<close>, \<^verbatim>\<open>imag\<close>, \<^verbatim>\<open>neg\<close> and
  \<^verbatim>\<open>complex\<close> of \<^verbatim>\<open>ops\<close> are not among the sources. The operations are
  "thin wrappers that validate arguments, normalize shapes, and dispatch to a shared
  execution engine's kernel registry": each of them is one dispatch of the kernel of
  its name.
\<close>

definition real_op :: "engine \<Rightarrow> Tensor \<Rightarrow> dispatch list \<Rightarrow> Tensor \<times> dispatch list" where
  "real_op eng x dlog = runKernel eng RealK [x] NoAttrs dlog"

definition imag_op :: "engine \<Rightarrow> Tensor \<Rightarrow> dispatch list \<Rightarrow> Tensor \<times> dispatch list" where
  "imag_op eng x dlog = runKernel eng ImagK [x] NoAttrs dlog"

definition neg_op :: "engine \<Rightarrow> Tensor \<Rightarrow> dispatch list \<Rightarrow> Tensor \<times> dispatch list" where
  "neg_op eng x dlog = runKernel eng NegK [x] NoAttrs dlog"

definition complex_op ::
  "engine \<Rightarrow> Tensor \<Rightarrow> Tensor \<Rightarrow> dispatch list \<Rightarrow> Tensor \<times> dispatch list" where
  "complex_op eng re im dlog = runKernel eng ComplexK [re, im] NoAttrs dlog"

text \<open>
  \<^verbatim>\<open>perm\<close> is optional: \<open>None\<close> is \<^verbatim>\<open>perm == null\<close>, and the default is
  \<^verbatim>\<open>$x.shape.map((s, i) => i).reverse()\<close>. The two \<^verbatim>\<open>util.assert\<close> calls
  come first, then the early return for ranks 0 and 1, then the dispatch (twice for
  a complex tensor, on its real and imaginary parts).
\<close>

definition transpose_op ::
  "engine \<Rightarrow> Tensor \<Rightarrow> number list option \<Rightarrow> bool \<Rightarrow> dispatch list
     \<Rightarrow> (error + Tensor) \<times> dispatch list" where
  "transpose_op eng x perm0 conjugate dlog =
     (let perm = (case perm0 of
                    None \<Rightarrow> rev (map of_nat [0..<length (shape x)])
                  | Some p \<Rightarrow> p)
      in if rank x \<noteq> length perm then (Inl (PermRankMismatch (rank x) perm), dlog)
         else if \<not> list_all (\<lambda>axis. axis \<ge> 0 \<and> axis < of_nat (rank x)) perm
           then (Inl (PermOutOfRange (rank x) perm), dlog)
         else if rank x \<le> 1 then (Inr (clone x), dlog)
         else
           let a = TransposeAttrs perm
           in if dtype x = complex64
                then
                  let (re, l1) = real_op eng x dlog;
                      (im, l2) = imag_op eng x l1;
                      (re', l3) = runKernel eng Transpose [re] a l2;
                      (im', l4) = runKernel eng Transpose [im] a l3;
                      (im'', l5) = (if conjugate then neg_op eng im' l4 else (im', l4));
                      (res, l6) = complex_op eng re' im'' l5
                  in (Inr res, l6)
              else case runKernel eng Transpose [x] a dlog of
                     (res, dlog') \<Rightarrow> (Inr res, dlog'))"

section \<open>multinomial\<close>

text \<open>
  \<^verbatim>\<open>seed = seed || Math.random()\<close>: a missing seed and the seed 0 are both
  replaced. \<open>random\<close> is the number that \<^verbatim>\<open>Math.random()\<close> returns in this call.
\<close>

definition multinomial_op ::
  "engine \<Rightarrow> number \<Rightarrow> Tensor \<Rightarrow> number \<Rightarrow> number option \<Rightarrow> bool \<Rightarrow> dispatch list
     \<Rightarrow> (error + Tensor) \<times> dispatch list" where
  "multinomial_op eng random logits numSamples seed normalized dlog =
     (let numOutcomes = size_of logits;
          origRank = rank logits
      in if numOutcomes < 2 then (Inl (TooFewOutcomes numOutcomes), dlog)
         else if origRank > 2 then (Inl (RankOfProbabilities origRank), dlog)
         else
           let seed' = (case seed of None \<Rightarrow> random | Some s \<Rightarrow> if s = 0 then random else s);
               logits2D = (if origRank = 1 then reshape logits [1, - 1] else logits);
               (res, dlog') = runKernel eng Multinomial [logits2D]
                                (MultinomialAttrs numSamples seed' normalized) dlog
           in (Inr (if origRank = 1 then reshape res [size_of res] else res), dlog'))"

text \<open>
  What the source says of the kernel: "The kernel only accepts (and returns) rank 2
  tensors", and the result is a "2D array of shape \<^verbatim>\<open>[batchSize, numSamples]\<close>".
  The kernel itself belongs to the engine; this is the contract an engine has to meet.
\<close>

definition multinomialKernelContract :: "engine \<Rightarrow> bool" where
  "multinomialKernelContract eng =
     (\<forall>logits2D numSamples seed normalized.
        shape (eng Multinomial [logits2D] (MultinomialAttrs numSamples seed normalized))
          = [hd (shape logits2D), numSamples])"

section \<open>Properties of broadcastTo\<close>

subsection \<open>The two loops\<close>

lemma unshiftLoop_eq: "unshiftLoop s n = replicate (n - length s) 1 @ s"
proof (induction s n rule: unshiftLoop.induct)
  case (1 s n)
  show ?case
  proof (cases "length s < n")
    case True
    then have "n - length s = Suc (n - Suc (length s))" by simp
    with 1 True show ?thesis
      by (subst unshiftLoop.simps) (simp add: replicate_append_same)
  next
    case False
    then show ?thesis by (subst unshiftLoop.simps) simp
  qed
qed

lemma repsLoop_eq:
  assumes "length inS = length shp" "length reps = length shp" "i \<le> length shp"
  shows "repsLoop i xS inS shp reps =
    (if \<forall>j<i. inS ! j = shp ! j \<or> inS ! j = 1
     then Inr (map (\<lambda>j. if j < i \<and> inS ! j = shp ! j then 1 else reps ! j) [0..<length reps])
     else Inl (IncompatibleShapes xS shp))"
  using assms
proof (induction i arbitrary: reps)
  case 0
  have "map ((!) reps) [0..<length reps] = reps" by (rule map_nth)
  then show ?case by simp
next
  case (Suc i)
  have il: "i < length shp" using Suc.prems by simp
  show ?case
  proof (cases "inS ! i = shp ! i")
    case True
    have "repsLoop (Suc i) xS inS shp reps = repsLoop i xS inS shp (reps[i := 1])"
      using True il Suc.prems by (simp add: js_nth_def)
    also have "\<dots> = (if \<forall>j<i. inS ! j = shp ! j \<or> inS ! j = 1
     then Inr (map (\<lambda>j. if j < i \<and> inS ! j = shp ! j then 1 else reps[i := 1] ! j) [0..<length (reps[i := 1])])
     else Inl (IncompatibleShapes xS shp))"
      using Suc.prems by (intro Suc.IH) auto
    also have "\<dots> = (if \<forall>j<Suc i. inS ! j = shp ! j \<or> inS ! j = 1
     then Inr (map (\<lambda>j. if j < Suc i \<and> inS ! j = shp ! j then 1 else reps ! j) [0..<length reps])
     else Inl (IncompatibleShapes xS shp))"
      using True il Suc.prems by (auto simp: less_Suc_eq nth_list_update)
    finally show ?thesis .
  next
    case False
    show ?thesis
    proof (cases "inS ! i = 1")
      case True
      have "repsLoop (Suc i) xS inS shp reps = repsLoop i xS inS shp reps"
        using True False il Suc.prems by (simp add: js_nth_def)
      also have "\<dots> = (if \<forall>j<i. inS ! j = shp ! j \<or> inS ! j = 1
       then Inr (map (\<lambda>j. if j < i \<and> inS ! j = shp ! j then 1 else reps ! j) [0..<length reps])
       else Inl (IncompatibleShapes xS shp))"
        using Suc.prems by (intro Suc.IH) auto
      also have "\<dots> = (if \<forall>j<Suc i. inS ! j = shp ! j \<or> inS ! j = 1
       then Inr (map (\<lambda>j. if j < Suc i \<and> inS ! j = shp ! j then 1 else reps ! j) [0..<length reps])
       else Inl (IncompatibleShapes xS shp))"
        using True False il by (auto simp: less_Suc_eq)
      finally show ?thesis .
    next
      case F2: False
      have "repsLoop (Suc i) xS inS shp reps = Inl (IncompatibleShapes xS shp)"
        using False F2 il Suc.prems by (simp add: js_nth_def)
      moreover have "\<not> (\<forall>j<Suc i. inS ! j = shp ! j \<or> inS ! j = 1)"
        using False F2 by auto
      ultimately show ?thesis by simp
    qed
  qed
qed

lemma repsLoop_error:
  "repsLoop i xS inS shp reps = Inl e \<Longrightarrow> e = IncompatibleShapes xS shp"
  by (induction i arbitrary: reps) (auto split: if_splits)

lemma repsLoop_length:
  "repsLoop i xS inS shp reps = Inr r \<Longrightarrow> length r = length reps"
  by (induction i arbitrary: reps) (auto split: if_splits)

subsection \<open>Valid shapes and padding\<close>

lemma isInteger_Ints: "isInteger d \<longleftrightarrow> d \<in> \<int>"
  unfolding isInteger_def by (auto simp: Ints_of_int elim: Ints_cases)

lemma isInteger_one: "isInteger 1"
  by (simp add: isInteger_def)

lemma valid_no_implicit: "assertNonNegativeIntegerDimensions s \<Longrightarrow> - 1 \<notin> set s"
  by (auto simp: assertNonNegativeIntegerDimensions_def list_all_iff)

lemma inferFromImplicitShape_explicit: "- 1 \<notin> set s \<Longrightarrow> inferFromImplicitShape s z = s"
  unfolding inferFromImplicitShape_def by (rule map_idI) auto

lemma valid_leftPad:
  "assertNonNegativeIntegerDimensions s \<Longrightarrow> assertNonNegativeIntegerDimensions (spec_leftPad s n)"
  by (auto simp: assertNonNegativeIntegerDimensions_def spec_leftPad_def list_all_iff isInteger_one)

lemma length_leftPad: "length s \<le> n \<Longrightarrow> length (spec_leftPad s n) = n"
  by (simp add: spec_leftPad_def)

lemma leftPad_same: "spec_leftPad s (length s) = s"
  by (simp add: spec_leftPad_def)

lemma reshape_leftPad:
  assumes "assertNonNegativeIntegerDimensions (shape x)"
  shows "reshape x (unshiftLoop (shape x) n) = x\<lparr>shape := spec_leftPad (shape x) n\<rparr>"
proof -
  have "unshiftLoop (shape x) n = spec_leftPad (shape x) n"
    by (simp add: unshiftLoop_eq spec_leftPad_def)
  moreover have "- 1 \<notin> set (spec_leftPad (shape x) n)"
    using assms by (intro valid_no_implicit valid_leftPad)
  ultimately show ?thesis
    by (simp add: reshape_def inferFromImplicitShape_explicit)
qed

subsection \<open>The repetition factors in closed form\<close>

lemma broadcastTo_reps_eq:
  assumes vx: "assertNonNegativeIntegerDimensions (shape x)"
    and vt: "assertNonNegativeIntegerDimensions shp"
    and rk: "rank x \<le> length shp"
  shows "broadcastTo_reps x shp =
    (if \<forall>j<length shp. spec_leftPad (shape x) (length shp) ! j = shp ! j
                        \<or> spec_leftPad (shape x) (length shp) ! j = 1
     then Inr (x\<lparr>shape := spec_leftPad (shape x) (length shp)\<rparr>,
               map (\<lambda>j. if spec_leftPad (shape x) (length shp) ! j = shp ! j then 1 else shp ! j)
                 [0..<length shp])
     else Inl (IncompatibleShapes (shape x) shp))"
proof -
  let ?P = "spec_leftPad (shape x) (length shp)"
  let ?input = "x\<lparr>shape := ?P\<rparr>"
  have lp: "length ?P = length shp"
    using rk by (simp add: length_leftPad rank_def)
  have inp: "(if length shp > rank x then reshape x (unshiftLoop (shape x) (length shp)) else x) = ?input"
  proof (cases "length shp > rank x")
    case True
    then show ?thesis using reshape_leftPad[OF vx] by simp
  next
    case False
    with rk have "length shp = length (shape x)" by (simp add: rank_def)
    then show ?thesis using False by (simp add: leftPad_same)
  qed
  have loop: "repsLoop (length shp) (shape x) ?P shp shp =
    (if \<forall>j<length shp. ?P ! j = shp ! j \<or> ?P ! j = 1
     then Inr (map (\<lambda>j. if j < length shp \<and> ?P ! j = shp ! j then 1 else shp ! j) [0..<length shp])
     else Inl (IncompatibleShapes (shape x) shp))"
    using lp by (intro repsLoop_eq) auto
  have m: "map (\<lambda>j. if j < length shp \<and> ?P ! j = shp ! j then 1 else shp ! j) [0..<length shp]
         = map (\<lambda>j. if ?P ! j = shp ! j then 1 else shp ! j) [0..<length shp]"
    by (rule map_cong) auto
  have "broadcastTo_reps x shp =
      (case repsLoop (length shp) (shape x) (shape ?input) shp shp of
                Inl e \<Rightarrow> Inl e
              | Inr reps \<Rightarrow> Inr (?input, reps))"
  proof -
    have nl: "\<not> length shp < rank x" using rk by simp
    show ?thesis
      unfolding broadcastTo_reps_def Let_def inp
      by (simp only: vt nl not_True_eq_False if_False)
  qed
  also have "shape ?input = ?P" by simp
  finally show ?thesis
    unfolding loop m by simp
qed

lemma broadcastTo_op_cases:
  "broadcastTo_op eng x shp dlog =
     (case broadcastTo_reps x shp of
        Inl e \<Rightarrow> (Inl e, dlog)
      | Inr (input, reps) \<Rightarrow>
          if tilingAxes reps = [] then (Inr (clone input), dlog)
          else (Inr (eng Tile [input] (TileAttrs reps)), dlog @ [(Tile, [input], TileAttrs reps)]))"
  by (simp add: broadcastTo_op_def runKernel_def split: sum.splits prod.splits)

lemma broadcastTo_op_error:
  "broadcastTo_reps x shp = Inl e \<Longrightarrow> broadcastTo_op eng x shp dlog = (Inl e, dlog)"
  by (simp add: broadcastTo_op_def)

lemma broadcastTo_op_error_iff:
  "fst (broadcastTo_op eng x shp dlog) = Inl e \<longleftrightarrow> broadcastTo_reps x shp = Inl e"
  unfolding broadcastTo_op_def by (auto simp: Let_def split: sum.splits prod.splits)

lemma broadcastTo_op_clone:
  "broadcastTo_reps x shp = Inr (input, reps) \<Longrightarrow> tilingAxes reps = [] \<Longrightarrow>
   broadcastTo_op eng x shp dlog = (Inr (clone input), dlog)"
  by (simp add: broadcastTo_op_def)

lemma broadcastTo_op_tile:
  "broadcastTo_reps x shp = Inr (input, reps) \<Longrightarrow> tilingAxes reps \<noteq> [] \<Longrightarrow>
   broadcastTo_op eng x shp dlog =
     (Inr (eng Tile [input] (TileAttrs reps)), dlog @ [(Tile, [input], TileAttrs reps)])"
  by (simp add: broadcastTo_op_def runKernel_def)

subsection \<open>The examples of the spec\<close>

lemmas broadcast_eval = broadcastTo_reps_def assertNonNegativeIntegerDimensions_def
  isInteger_def rank_def js_nth_def reshape_def inferFromImplicitShape_def size_of_def
  unshiftLoop_eq Let_def

lemma ex_incompatible:
  "broadcastTo_reps \<lparr>shape = [2, 3], dtype = d, vals = v\<rparr> [2, 4] = Inl (IncompatibleShapes [2, 3] [2, 4])"
  by (simp add: broadcast_eval)

lemma ex_rank:
  "broadcastTo_reps \<lparr>shape = [1, 2, 3], dtype = d, vals = v\<rparr> [4] = Inl (RankMismatch 1 3)"
  by (simp add: broadcast_eval)

lemma ex_tile:
  "broadcastTo_reps \<lparr>shape = [1, 4], dtype = d, vals = v\<rparr> [5, 4]
     = Inr (\<lparr>shape = [1, 4], dtype = d, vals = v\<rparr>, [5, 1])"
  by (simp add: broadcast_eval)

lemma ex_pad:
  "broadcastTo_reps \<lparr>shape = [3], dtype = d, vals = v\<rparr> [2, 3]
     = Inr (\<lparr>shape = [1, 3], dtype = d, vals = v\<rparr>, [2, 1])"
  by (simp add: broadcast_eval)

lemma ex_axes: "tilingAxes [2, 1] = [0]"
  by (simp add: tilingAxes_def axisOrMinusOne_def)

subsection \<open>Claims about the repetition factors\<close>

text \<open>
  C1. For a source shape and a target shape of equal rank after the source is left-padded
  with 1s: when every axis of the padded source equals the target or is 1, the call yields
  repetition factors with \<open>reps[i] = 1\<close> where the two extents are equal and
  \<open>reps[i] = target[i]\<close> where the padded source is 1; otherwise the call fails with
  IncompatibleShapes, which reports the source shape and the target shape. In particular
  the source [2,3] cannot be broadcast to [2,4]. Shapes are sequences of non-negative
  integers, as in the data model.
\<close>

theorem broadcastTo_axis_rule:
  assumes "assertNonNegativeIntegerDimensions (shape x)"
    and "assertNonNegativeIntegerDimensions T"
    and "rank x \<le> length T"
  shows "(if \<forall>i<length T. spec_leftPad (shape x) (length T) ! i = T ! i
                          \<or> spec_leftPad (shape x) (length T) ! i = 1
          then \<exists>input reps. broadcastTo_reps x T = Inr (input, reps) \<and> length reps = length T \<and>
                 (\<forall>i<length T.
                    (spec_leftPad (shape x) (length T) ! i = T ! i \<longrightarrow> reps ! i = 1) \<and>
                    (spec_leftPad (shape x) (length T) ! i \<noteq> T ! i \<longrightarrow> reps ! i = T ! i))
          else broadcastTo_reps x T = Inl (IncompatibleShapes (shape x) T)
             \<and> broadcastTo_op eng x T dlog = (Inl (IncompatibleShapes (shape x) T), dlog))
       \<and> broadcastTo_op eng \<lparr>shape = [2, 3], dtype = d, vals = v\<rparr> [2, 4] dlog
            = (Inl (IncompatibleShapes [2, 3] [2, 4]), dlog)"
  using assms
  by (simp add: broadcastTo_reps_eq broadcastTo_op_cases ex_incompatible)

theorem broadcastTo_axis_rule_witness:
  "assertNonNegativeIntegerDimensions (shape \<lparr>shape = [1, 4], dtype = float32, vals = [1, 2, 3, 4]\<rparr>)
   \<and> assertNonNegativeIntegerDimensions [5, 4]
   \<and> rank \<lparr>shape = [1, 4], dtype = float32, vals = [1, 2, 3, 4]\<rparr> \<le> length [5, 4 :: number]
   \<and> (\<exists>input reps.
         broadcastTo_reps \<lparr>shape = [1, 4], dtype = float32, vals = [1, 2, 3, 4]\<rparr> [5, 4] = Inr (input, reps)
         \<and> length reps = 2 \<and> reps ! 0 = 5 \<and> reps ! 1 = 1)"
proof -
  let ?x = "\<lparr>shape = [1, 4], dtype = float32, vals = [1, 2, 3, 4]\<rparr>"
  have h1: "assertNonNegativeIntegerDimensions (shape ?x)"
    by (simp add: assertNonNegativeIntegerDimensions_def isInteger_def)
  have h2: "assertNonNegativeIntegerDimensions [5, 4]"
    by (simp add: assertNonNegativeIntegerDimensions_def isInteger_def)
  have h3: "rank ?x \<le> length [5, 4 :: number]"
    by (simp add: rank_def)
  have pad: "spec_leftPad (shape ?x) (length [5, 4 :: number]) = [1, 4]"
    by (simp add: spec_leftPad_def)
  have two: "(\<forall>i<Suc (Suc 0). P i) \<longleftrightarrow> P 0 \<and> P (Suc 0)" for P :: "nat \<Rightarrow> bool"
    by (auto simp: less_Suc_eq)
  from broadcastTo_axis_rule [where x = ?x and T = "[5, 4]" and eng = "\<lambda>k ins a. ?x"
         and dlog = "[]" and d = float32 and v = "[]", OF h1 h2 h3] h1 h2 h3
  show ?thesis
    unfolding pad by (simp add: two numeral_2_eq_2)
qed

text \<open>
  C2. For a target shape of non-negative integers, the call fails with RankMismatch,
  reporting the length of the target and the rank of the source, if and only if the
  target is shorter than the rank of the source; when the target is at least as long, no
  rank error is raised. In particular the source [1,2,3] with the target [4] fails with
  RankMismatch.
\<close>

theorem broadcastTo_rank_mismatch:
  assumes "assertNonNegativeIntegerDimensions T"
  shows "(broadcastTo_reps x T = Inl (RankMismatch (length T) (rank x)) \<longleftrightarrow> length T < rank x)
       \<and> (fst (broadcastTo_op eng x T dlog) = Inl (RankMismatch (length T) (rank x))
            \<longleftrightarrow> length T < rank x)
       \<and> (rank x \<le> length T \<longrightarrow> (\<forall>a b. fst (broadcastTo_op eng x T dlog) \<noteq> Inl (RankMismatch a b)))
       \<and> broadcastTo_op eng \<lparr>shape = [1, 2, 3], dtype = d, vals = v\<rparr> [4] dlog
           = (Inl (RankMismatch 1 3), dlog)"
proof -
  have a: "broadcastTo_reps x T = Inl (RankMismatch (length T) (rank x))" if "length T < rank x"
    using that assms by (simp add: broadcastTo_reps_def)
  have b: "broadcastTo_reps x T \<noteq> Inl (RankMismatch a b)" if "rank x \<le> length T" for a b
  proof
    assume e: "broadcastTo_reps x T = Inl (RankMismatch a b)"
    let ?input = "if rank x < length T then reshape x (unshiftLoop (shape x) (length T)) else x"
    from e that assms
    have "repsLoop (length T) (shape x) (shape ?input) T T = Inl (RankMismatch a b)"
      by (auto simp: broadcastTo_reps_def Let_def split: sum.splits if_splits)
    from repsLoop_error [OF this] show False by simp
  qed
  have i1: "broadcastTo_reps x T = Inl (RankMismatch (length T) (rank x)) \<longleftrightarrow> length T < rank x"
    using a b [of "length T" "rank x"] by (cases "length T < rank x") auto
  have i2: "rank x \<le> length T \<longrightarrow> (\<forall>a b. broadcastTo_reps x T \<noteq> Inl (RankMismatch a b))"
    using b by blast
  show ?thesis
    unfolding broadcastTo_op_error_iff using i1 i2
    by (simp add: ex_rank broadcastTo_op_cases)
qed

theorem broadcastTo_rank_mismatch_witness:
  "assertNonNegativeIntegerDimensions [4]
   \<and> broadcastTo_reps \<lparr>shape = [1, 2, 3], dtype = float32, vals = [1, 2, 3, 4, 5, 6]\<rparr> [4]
       = Inl (RankMismatch 1 3)
   \<and> (\<forall>a b. fst (broadcastTo_op (\<lambda>k ins a. hd ins) \<lparr>shape = [4], dtype = float32, vals = [1, 2, 3, 4]\<rparr> [4] [])
         \<noteq> Inl (RankMismatch a b))"
proof -
  have h: "assertNonNegativeIntegerDimensions [4]"
    by (simp add: assertNonNegativeIntegerDimensions_def isInteger_def)
  have l: "length [4 :: number] < rank \<lparr>shape = [1, 2, 3], dtype = float32, vals = [1, 2, 3, 4, 5, 6]\<rparr>"
    by (simp add: rank_def)
  have r: "rank \<lparr>shape = [4], dtype = float32, vals = [1, 2, 3, 4]\<rparr> \<le> length [4 :: number]"
    by (simp add: rank_def)
  from broadcastTo_rank_mismatch [OF h, where x = "\<lparr>shape = [1, 2, 3], dtype = float32, vals = [1, 2, 3, 4, 5, 6]\<rparr>"
       and eng = "\<lambda>k ins a. hd ins" and dlog = "[]" and d = float32 and v = "[]"] l
  have p1: "broadcastTo_reps \<lparr>shape = [1, 2, 3], dtype = float32, vals = [1, 2, 3, 4, 5, 6]\<rparr> [4]
       = Inl (RankMismatch 1 3)"
    by (simp add: rank_def)
  from broadcastTo_rank_mismatch [OF h, where x = "\<lparr>shape = [4], dtype = float32, vals = [1, 2, 3, 4]\<rparr>"
       and eng = "\<lambda>k ins a. hd ins" and dlog = "[]" and d = float32 and v = "[]"] r
  have p2: "\<forall>a b. fst (broadcastTo_op (\<lambda>k ins a. hd ins) \<lparr>shape = [4], dtype = float32, vals = [1, 2, 3, 4]\<rparr> [4] [])
         \<noteq> Inl (RankMismatch a b)"
    by blast
  show ?thesis
    by (intro conjI) (rule h, rule p1, rule p2)
qed

lemma broadcastTo_reps_valid_target:
  "broadcastTo_reps x T = Inr r \<Longrightarrow> assertNonNegativeIntegerDimensions T"
  unfolding broadcastTo_reps_def Let_def
  by (cases "assertNonNegativeIntegerDimensions T") simp_all

lemma broadcastTo_reps_success:
  assumes vx: "assertNonNegativeIntegerDimensions (shape x)"
    and rk: "rank x \<le> length T"
    and ok: "broadcastTo_reps x T = Inr (input, reps)"
  shows "input = x\<lparr>shape := spec_leftPad (shape x) (length T)\<rparr>"
    and "reps = map (\<lambda>j. if spec_leftPad (shape x) (length T) ! j = T ! j then 1 else T ! j)
                 [0..<length T]"
proof -
  have vt: "assertNonNegativeIntegerDimensions T"
    using ok by (rule broadcastTo_reps_valid_target)
  let ?c = "\<forall>j<length T. spec_leftPad (shape x) (length T) ! j = T ! j
                        \<or> spec_leftPad (shape x) (length T) ! j = 1"
  have eq: "broadcastTo_reps x T =
    (if ?c then Inr (x\<lparr>shape := spec_leftPad (shape x) (length T)\<rparr>,
               map (\<lambda>j. if spec_leftPad (shape x) (length T) ! j = T ! j then 1 else T ! j)
                 [0..<length T])
     else Inl (IncompatibleShapes (shape x) T))"
    by (rule broadcastTo_reps_eq [OF vx vt rk])
  have c: ?c
  proof (rule ccontr)
    assume "\<not> ?c"
    then have "broadcastTo_reps x T = Inl (IncompatibleShapes (shape x) T)"
      by (simp only: eq if_False)
    with ok show False by simp
  qed
  have "broadcastTo_reps x T = Inr (x\<lparr>shape := spec_leftPad (shape x) (length T)\<rparr>,
               map (\<lambda>j. if spec_leftPad (shape x) (length T) ! j = T ! j then 1 else T ! j)
                 [0..<length T])"
    unfolding eq using c by (rule if_P)
  with ok show "input = x\<lparr>shape := spec_leftPad (shape x) (length T)\<rparr>"
    and "reps = map (\<lambda>j. if spec_leftPad (shape x) (length T) ! j = T ! j then 1 else T ! j)
                 [0..<length T]"
    by simp_all
qed

text \<open>
  C3. For a source of rank strictly below the length of the target, the padding loop
  yields the source shape with 1s prepended until the ranks are equal, which is the
  left-padding of the spec; when the call succeeds, the input that goes on has this padded
  shape, and the repetition factors are as many as the axes of the target.
\<close>

theorem broadcastTo_left_pad:
  assumes "assertNonNegativeIntegerDimensions (shape x)"
    and "rank x < length T"
  shows "unshiftLoop (shape x) (length T) = replicate (length T - rank x) 1 @ shape x
       \<and> unshiftLoop (shape x) (length T) = spec_leftPad (shape x) (length T)
       \<and> length (unshiftLoop (shape x) (length T)) = length T
       \<and> (\<forall>input reps. broadcastTo_reps x T = Inr (input, reps) \<longrightarrow>
             shape input = replicate (length T - rank x) 1 @ shape x
             \<and> rank input = length T \<and> length reps = length T)"
proof -
  have u: "unshiftLoop (shape x) (length T) = replicate (length T - rank x) 1 @ shape x"
    by (simp add: unshiftLoop_eq rank_def)
  have p: "unshiftLoop (shape x) (length T) = spec_leftPad (shape x) (length T)"
    by (simp add: unshiftLoop_eq spec_leftPad_def)
  have l: "length (unshiftLoop (shape x) (length T)) = length T"
    using assms(2) by (simp add: unshiftLoop_eq rank_def)
  have s: "shape input = replicate (length T - rank x) 1 @ shape x
             \<and> rank input = length T \<and> length reps = length T"
    if ok: "broadcastTo_reps x T = Inr (input, reps)" for input reps
  proof -
    have rk: "rank x \<le> length T" using assms(2) by simp
    note r = broadcastTo_reps_success [OF assms(1) rk ok]
    have "shape input = spec_leftPad (shape x) (length T)"
      by (simp add: r(1))
    moreover have "length reps = length T"
      by (simp add: r(2))
    ultimately show ?thesis
      using assms(2) by (simp add: spec_leftPad_def rank_def)
  qed
  show ?thesis
    using u p l s by blast
qed

theorem broadcastTo_left_pad_witness:
  "assertNonNegativeIntegerDimensions (shape \<lparr>shape = [3], dtype = float32, vals = [7, 8, 9]\<rparr>)
   \<and> rank \<lparr>shape = [3], dtype = float32, vals = [7, 8, 9]\<rparr> < length [2, 3 :: number]
   \<and> unshiftLoop [3] (length [2, 3 :: number]) = [1, 3]
   \<and> broadcastTo_reps \<lparr>shape = [3], dtype = float32, vals = [7, 8, 9]\<rparr> [2, 3]
        = Inr (\<lparr>shape = [1, 3], dtype = float32, vals = [7, 8, 9]\<rparr>, [2, 1])
   \<and> rank \<lparr>shape = [1, 3], dtype = float32, vals = [7, 8, 9]\<rparr> = length [2, 3 :: number]"
proof -
  let ?x = "\<lparr>shape = [3], dtype = float32, vals = [7, 8, 9]\<rparr>"
  have h1: "assertNonNegativeIntegerDimensions (shape ?x)"
    by (simp add: assertNonNegativeIntegerDimensions_def isInteger_def)
  have h2: "rank ?x < length [2, 3 :: number]"
    by (simp add: rank_def)
  have e: "broadcastTo_reps ?x [2, 3] = Inr (\<lparr>shape = [1, 3], dtype = float32, vals = [7, 8, 9]\<rparr>, [2, 1])"
    by (rule ex_pad)
  note t = broadcastTo_left_pad [OF h1 h2]
  have u: "unshiftLoop [3] (length [2, 3 :: number]) = [1, 3]"
    using t by (simp add: rank_def)
  have r: "rank \<lparr>shape = [1, 3], dtype = float32, vals = [7, 8, 9]\<rparr> = length [2, 3 :: number]"
    using t e by (simp add: rank_def)
  show ?thesis
    by (intro conjI) (rule h1, rule h2, rule u, rule e, rule r)
qed

lemma tilingAxes_empty_iff: "tilingAxes reps = [] \<longleftrightarrow> (\<forall>n\<in>set reps. n \<le> 1)"
proof
  assume e: "tilingAxes reps = []"
  show "\<forall>n\<in>set reps. n \<le> 1"
  proof
    fix n assume "n \<in> set reps"
    then obtain k where k: "k < length reps" "reps ! k = n"
      by (auto simp: in_set_conv_nth)
    then have "(n, k) \<in> set (zip reps [0..<length reps])"
      by (auto simp: set_zip)
    with e have "\<not> (0 \<le> (if n > 1 then (of_nat k :: number) else - 1))"
      unfolding tilingAxes_def axisOrMinusOne_def filter_empty_conv by force
    then show "n \<le> 1" by (simp split: if_splits)
  qed
next
  assume a: "\<forall>n\<in>set reps. n \<le> 1"
  have "\<not> (0 \<le> (case p of (n, i) \<Rightarrow> if n > 1 then (of_nat i :: number) else - 1))"
    if "p \<in> set (zip reps [0..<length reps])" for p
  proof -
    obtain n i where p: "p = (n, i)" by (cases p)
    with that have "n \<in> set reps" by (auto dest: set_zip_leftD)
    with a have "n \<le> 1" by blast
    then show ?thesis by (simp add: p)
  qed
  then show "tilingAxes reps = []"
    unfolding tilingAxes_def axisOrMinusOne_def filter_empty_conv by auto
qed

lemma broadcastTo_reps_ok:
  assumes vx: "assertNonNegativeIntegerDimensions (shape x)"
    and vt: "assertNonNegativeIntegerDimensions T"
    and rk: "rank x \<le> length T"
    and c: "\<forall>j<length T. spec_leftPad (shape x) (length T) ! j = T ! j
                        \<or> spec_leftPad (shape x) (length T) ! j = 1"
  shows "broadcastTo_reps x T =
     Inr (x\<lparr>shape := spec_leftPad (shape x) (length T)\<rparr>,
          map (\<lambda>j. if spec_leftPad (shape x) (length T) ! j = T ! j then 1 else T ! j)
            [0..<length T])"
  unfolding broadcastTo_reps_eq [OF vx vt rk] using c by (rule if_P)

lemma valid_update:
  assumes "assertNonNegativeIntegerDimensions s" "isInteger n" "0 \<le> n"
  shows "assertNonNegativeIntegerDimensions (s[k := n])"
proof -
  have "set (s[k := n]) \<subseteq> insert n (set s)" by (rule set_update_subset_insert)
  with assms show ?thesis
    unfolding assertNonNegativeIntegerDimensions_def list_all_iff by blast
qed

text \<open>
  C4. For every shape S (of non-negative integers) and every tensor of this shape,
  broadcasting to S succeeds with all repetition factors 1; no axis needs tiling, and the
  result is a copy of the source with its shape and values, with no kernel dispatched.
\<close>

theorem broadcastTo_same_shape:
  assumes "assertNonNegativeIntegerDimensions (shape x)"
  shows "broadcastTo_reps x (shape x) = Inr (x, replicate (rank x) 1)
       \<and> tilingAxes (replicate (rank x) 1) = []
       \<and> broadcastTo_op eng x (shape x) dlog = (Inr (clone x), dlog)
       \<and> shape (clone x) = shape x \<and> vals (clone x) = vals x"
proof -
  have rk: "rank x \<le> length (shape x)" by (simp add: rank_def)
  have m: "map (\<lambda>j. 1 :: number) [0..<length (shape x)] = replicate (rank x) 1"
    by (simp add: map_replicate_const rank_def)
  have r: "broadcastTo_reps x (shape x) = Inr (x, replicate (rank x) 1)"
    using broadcastTo_reps_eq [OF assms assms rk] m by (simp add: leftPad_same)
  have t: "tilingAxes (replicate (rank x) 1) = []"
    by (simp add: tilingAxes_empty_iff)
  have o: "broadcastTo_op eng x (shape x) dlog = (Inr (clone x), dlog)"
    using r t by (rule broadcastTo_op_clone)
  show ?thesis
    using r t o by (simp add: clone_def)
qed

theorem broadcastTo_same_shape_witness:
  "assertNonNegativeIntegerDimensions (shape \<lparr>shape = [2, 3], dtype = float32, vals = [1, 2, 3, 4, 5, 6]\<rparr>)
   \<and> broadcastTo_reps \<lparr>shape = [2, 3], dtype = float32, vals = [1, 2, 3, 4, 5, 6]\<rparr> [2, 3]
        = Inr (\<lparr>shape = [2, 3], dtype = float32, vals = [1, 2, 3, 4, 5, 6]\<rparr>, [1, 1])
   \<and> broadcastTo_op (\<lambda>k ins a. hd ins) \<lparr>shape = [2, 3], dtype = float32, vals = [1, 2, 3, 4, 5, 6]\<rparr> [2, 3] []
        = (Inr \<lparr>shape = [2, 3], dtype = float32, vals = [1, 2, 3, 4, 5, 6]\<rparr>, [])"
proof -
  let ?x = "\<lparr>shape = [2, 3], dtype = float32, vals = [1, 2, 3, 4, 5, 6]\<rparr>"
  have h: "assertNonNegativeIntegerDimensions (shape ?x)"
    by (simp add: assertNonNegativeIntegerDimensions_def isInteger_def)
  from broadcastTo_same_shape [OF h, where eng = "\<lambda>k ins a. hd ins" and dlog = "[]"] h
  show ?thesis
    by (simp add: rank_def clone_def numeral_2_eq_2)
qed

text \<open>
  C5. For every shape S with an axis k of extent 1 and every target that equals S except
  that axis k is enlarged to an integer n above 1, the call succeeds; the repetition
  factor is n on axis k and 1 on every other axis, and the Tile kernel is dispatched once
  with these factors. In particular the source [1,4] with the target [5,4] gives [5,1].
\<close>

theorem broadcastTo_enlarge_axis:
  assumes "assertNonNegativeIntegerDimensions (shape x)"
    and "k < rank x" and "shape x ! k = 1"
    and "isInteger n" and "1 < n"
  shows "broadcastTo_reps x ((shape x)[k := n]) = Inr (x, (replicate (rank x) 1)[k := n])
       \<and> broadcastTo_op eng x ((shape x)[k := n]) dlog =
           (Inr (eng Tile [x] (TileAttrs ((replicate (rank x) 1)[k := n]))),
            dlog @ [(Tile, [x], TileAttrs ((replicate (rank x) 1)[k := n]))])
       \<and> broadcastTo_reps \<lparr>shape = [1, 4], dtype = d, vals = v\<rparr> [5, 4]
           = Inr (\<lparr>shape = [1, 4], dtype = d, vals = v\<rparr>, [5, 1])"
proof -
  let ?S = "shape x"
  let ?T = "?S[k := n]"
  let ?R = "(replicate (rank x) 1)[k := n]"
  have kl: "k < length ?S" using assms(2) by (simp add: rank_def)
  have vt: "assertNonNegativeIntegerDimensions ?T"
    using assms(1,4,5) by (intro valid_update) auto
  have rk: "rank x \<le> length ?T" by (simp add: rank_def)
  have pad: "spec_leftPad ?S (length ?T) = ?S" by (simp add: spec_leftPad_def)
  have c: "\<forall>j<length ?T. ?S ! j = ?T ! j \<or> ?S ! j = 1"
  proof (intro allI impI)
    fix j assume "j < length ?T"
    show "?S ! j = ?T ! j \<or> ?S ! j = 1"
      using assms(3) by (cases "j = k") auto
  qed
  have m: "map (\<lambda>j. if ?S ! j = ?T ! j then 1 else ?T ! j) [0..<length ?T] = ?R"
  proof (rule nth_equalityI)
    show "length (map (\<lambda>j. if ?S ! j = ?T ! j then 1 else ?T ! j) [0..<length ?T]) = length ?R"
      by (simp add: rank_def)
  next
    fix i assume "i < length (map (\<lambda>j. if ?S ! j = ?T ! j then 1 else ?T ! j) [0..<length ?T])"
    then have il: "i < length ?S" by simp
    show "map (\<lambda>j. if ?S ! j = ?T ! j then 1 else ?T ! j) [0..<length ?T] ! i = ?R ! i"
      using il kl assms(3,5) by (auto simp: nth_list_update rank_def)
  qed
  have c': "\<forall>j<length ?T. spec_leftPad ?S (length ?T) ! j = ?T ! j
                        \<or> spec_leftPad ?S (length ?T) ! j = 1"
    unfolding pad by (rule c)
  have "broadcastTo_reps x ?T =
      Inr (x\<lparr>shape := ?S\<rparr>, map (\<lambda>j. if ?S ! j = ?T ! j then 1 else ?T ! j) [0..<length ?T])"
    using broadcastTo_reps_ok [OF assms(1) vt rk c'] unfolding pad .
  then have r: "broadcastTo_reps x ?T = Inr (x, ?R)"
    unfolding m by simp
  have "k < length ?R" "?R ! k = n"
    using kl by (simp_all add: rank_def)
  then have "n \<in> set ?R" by (metis nth_mem)
  with assms(5) have t: "tilingAxes ?R \<noteq> []"
    unfolding tilingAxes_empty_iff by (auto simp: not_le intro: bexI [of _ n])
  have o: "broadcastTo_op eng x ?T dlog = (Inr (eng Tile [x] (TileAttrs ?R)), dlog @ [(Tile, [x], TileAttrs ?R)])"
    using r t by (rule broadcastTo_op_tile)
  show ?thesis
    using r o ex_tile by blast
qed

theorem broadcastTo_enlarge_axis_witness:
  "assertNonNegativeIntegerDimensions (shape \<lparr>shape = [1, 4], dtype = float32, vals = [1, 2, 3, 4]\<rparr>)
   \<and> (0 :: nat) < rank \<lparr>shape = [1, 4], dtype = float32, vals = [1, 2, 3, 4]\<rparr>
   \<and> shape \<lparr>shape = [1, 4], dtype = float32, vals = [1, 2, 3, 4]\<rparr> ! 0 = 1
   \<and> isInteger 5 \<and> (1 :: number) < 5
   \<and> broadcastTo_reps \<lparr>shape = [1, 4], dtype = float32, vals = [1, 2, 3, 4]\<rparr> [5, 4]
        = Inr (\<lparr>shape = [1, 4], dtype = float32, vals = [1, 2, 3, 4]\<rparr>, [5, 1])
   \<and> snd (broadcastTo_op (\<lambda>k ins a. hd ins) \<lparr>shape = [1, 4], dtype = float32, vals = [1, 2, 3, 4]\<rparr> [5, 4] [])
        = [(Tile, [\<lparr>shape = [1, 4], dtype = float32, vals = [1, 2, 3, 4]\<rparr>], TileAttrs [5, 1])]"
proof -
  let ?x = "\<lparr>shape = [1, 4], dtype = float32, vals = [1, 2, 3, 4]\<rparr>"
  have h1: "assertNonNegativeIntegerDimensions (shape ?x)"
    by (simp add: assertNonNegativeIntegerDimensions_def isInteger_def)
  have h2: "0 < rank ?x" by (simp add: rank_def)
  have h3: "shape ?x ! 0 = 1" by simp
  have h4: "isInteger 5" by (simp add: isInteger_def)
  have h5: "(1 :: number) < 5" by simp
  from broadcastTo_enlarge_axis [OF h1 h2 h3 h4 h5, where eng = "\<lambda>k ins a. hd ins" and dlog = "[]"
         and d = float32 and v = "[]"] h1 h2 h3 h4 h5
  show ?thesis
    by (simp add: rank_def numeral_2_eq_2)
qed

text \<open>
  C6, as the code has it. The source [3] with the target [2,3] is left-padded to [1,3];
  axis 1 is equal and gets the factor 1, axis 0 has extent 1 against 2 and gets the
  factor 2. The repetition factors are [2,1], axis 0 needs tiling, and the Tile kernel is
  dispatched on the padded input.
\<close>

theorem broadcastTo_pad_then_tile:
  "broadcastTo_reps \<lparr>shape = [3], dtype = d, vals = v\<rparr> [2, 3]
     = Inr (\<lparr>shape = [1, 3], dtype = d, vals = v\<rparr>, [2, 1])
   \<and> tilingAxes [2, 1] = [0]
   \<and> broadcastTo_op eng \<lparr>shape = [3], dtype = d, vals = v\<rparr> [2, 3] dlog
     = (Inr (eng Tile [\<lparr>shape = [1, 3], dtype = d, vals = v\<rparr>] (TileAttrs [2, 1])),
        dlog @ [(Tile, [\<lparr>shape = [1, 3], dtype = d, vals = v\<rparr>], TileAttrs [2, 1])])"
  by (simp add: broadcastTo_op_cases ex_pad ex_axes)

text \<open>
  C6, as the spec states it, fails: the repetition factors of the source [3] and the
  target [2,3] are not [1,1], and the result is not a copy without a dispatch.
\<close>

theorem broadcastTo_pad_not_noop:
  "broadcastTo_reps \<lparr>shape = [3], dtype = float32, vals = [7, 8, 9]\<rparr> [2, 3]
     \<noteq> Inr (\<lparr>shape = [1, 3], dtype = float32, vals = [7, 8, 9]\<rparr>, [1, 1])
   \<and> tilingAxes [2, 1] \<noteq> []
   \<and> broadcastTo_op echoEngine \<lparr>shape = [3], dtype = float32, vals = [7, 8, 9]\<rparr> [2, 3] []
     \<noteq> (Inr (clone \<lparr>shape = [1, 3], dtype = float32, vals = [7, 8, 9]\<rparr>), [])"
  by (simp add: broadcastTo_op_cases ex_pad ex_axes)

text \<open>
  C8. The check of the requested shape comes first: for every target shape that has a
  negative extent or an extent that is not an integer, the call fails with the error of
  that check, whatever the source is (also when the target is shorter than the rank of
  the source), and nothing is dispatched.
\<close>

theorem broadcastTo_validates_target_first:
  assumes "\<exists>d\<in>set T. d < 0 \<or> d \<notin> \<int>"
  shows "broadcastTo_reps x T = Inl (InvalidDimensions T)
       \<and> broadcastTo_op eng x T dlog = (Inl (InvalidDimensions T), dlog)"
proof -
  from assms have "\<not> assertNonNegativeIntegerDimensions T"
    unfolding assertNonNegativeIntegerDimensions_def list_all_iff isInteger_Ints
    by (auto simp: not_le)
  then have r: "broadcastTo_reps x T = Inl (InvalidDimensions T)"
    by (simp add: broadcastTo_reps_def)
  then show ?thesis
    by (simp add: broadcastTo_op_cases)
qed

theorem broadcastTo_validates_target_first_witness:
  "(\<exists>d\<in>set [- 4 :: number]. d < 0 \<or> d \<notin> \<int>)
   \<and> (\<exists>d\<in>set [2, 7 / 2 :: number]. d < 0 \<or> d \<notin> \<int>)
   \<and> broadcastTo_op (\<lambda>k ins a. hd ins) \<lparr>shape = [1, 2, 3], dtype = float32, vals = [1, 2, 3, 4, 5, 6]\<rparr> [- 4] []
        = (Inl (InvalidDimensions [- 4]), [])
   \<and> broadcastTo_op (\<lambda>k ins a. hd ins) \<lparr>shape = [1, 2, 3], dtype = float32, vals = [1, 2, 3, 4, 5, 6]\<rparr> [2, 7 / 2] []
        = (Inl (InvalidDimensions [2, 7 / 2]), [])"
proof -
  have h1: "\<exists>d\<in>set [- 4 :: number]. d < 0 \<or> d \<notin> \<int>" by simp
  have "\<lfloor>7 / 2 :: number\<rfloor> = 3" by (simp add: floor_eq_iff)
  then have "\<not> isInteger (7 / 2)" by (simp add: isInteger_def)
  then have "(7 / 2 :: number) \<notin> \<int>" by (simp add: isInteger_Ints)
  then have h2: "\<exists>d\<in>set [2, 7 / 2 :: number]. d < 0 \<or> d \<notin> \<int>" by simp
  from broadcastTo_validates_target_first [OF h1] broadcastTo_validates_target_first [OF h2] h1 h2
  show ?thesis by blast
qed

section \<open>Properties of transpose\<close>

text \<open>
  C9, as the code has it. For a tensor of rank 0 or 1 and a permutation argument that is
  absent, or has the length of the rank and only entries from 0 up to (not including) the
  rank, transpose returns a clone with the shape and the values of the input, and no
  kernel is dispatched, so no Transpose kernel either.
\<close>

theorem transpose_low_rank_clone:
  assumes "rank x \<le> 1"
    and "perm = None \<or> (\<exists>p. perm = Some p \<and> length p = rank x
            \<and> (\<forall>axis\<in>set p. 0 \<le> axis \<and> axis < of_nat (rank x)))"
  shows "transpose_op eng x perm conjugate dlog = (Inr (clone x), dlog)
       \<and> shape (clone x) = shape x \<and> vals (clone x) = vals x"
proof -
  let ?perm = "case perm of None \<Rightarrow> rev (map of_nat [0..<length (shape x)]) | Some p \<Rightarrow> p"
  have l: "rank x = length ?perm"
    using assms(2) by (auto simp: rank_def)
  have r: "list_all (\<lambda>axis. axis \<ge> 0 \<and> axis < of_nat (rank x)) ?perm"
    using assms(2) by (auto simp: rank_def list_all_iff)
  have "transpose_op eng x perm conjugate dlog = (Inr (clone x), dlog)"
    unfolding transpose_op_def Let_def using l r assms(1) by simp
  then show ?thesis
    by (simp add: clone_def)
qed

theorem transpose_low_rank_clone_witness:
  "rank \<lparr>shape = [3], dtype = float32, vals = [7, 8, 9]\<rparr> \<le> 1
   \<and> (\<exists>p. Some [0 :: number] = Some p \<and> length p = rank \<lparr>shape = [3], dtype = float32, vals = [7, 8, 9]\<rparr>
          \<and> (\<forall>axis\<in>set p. 0 \<le> axis \<and> axis < of_nat (rank \<lparr>shape = [3], dtype = float32, vals = [7, 8, 9]\<rparr>)))
   \<and> transpose_op (\<lambda>k ins a. hd ins) \<lparr>shape = [3], dtype = float32, vals = [7, 8, 9]\<rparr> (Some [0]) False []
        = (Inr \<lparr>shape = [3], dtype = float32, vals = [7, 8, 9]\<rparr>, [])
   \<and> transpose_op (\<lambda>k ins a. hd ins) \<lparr>shape = [], dtype = float32, vals = [7]\<rparr> None False []
        = (Inr \<lparr>shape = [], dtype = float32, vals = [7]\<rparr>, [])"
proof -
  let ?x = "\<lparr>shape = [3], dtype = float32, vals = [7, 8, 9]\<rparr>"
  let ?y = "\<lparr>shape = [], dtype = float32, vals = [7]\<rparr>"
  have h1: "rank ?x \<le> 1" by (simp add: rank_def)
  have h2: "\<exists>p. Some [0 :: number] = Some p \<and> length p = rank ?x
          \<and> (\<forall>axis\<in>set p. 0 \<le> axis \<and> axis < of_nat (rank ?x))"
    by (simp add: rank_def)
  have h3: "rank ?y \<le> 1" by (simp add: rank_def)
  have a: "transpose_op (\<lambda>k ins a. hd ins) ?x (Some [0]) False [] = (Inr ?x, [])"
    using transpose_low_rank_clone [OF h1 disjI2, OF h2, where eng = "\<lambda>k ins a. hd ins"
        and conjugate = False and dlog = "[]"]
    by (simp add: clone_def)
  have b: "transpose_op (\<lambda>k ins a. hd ins) ?y None False [] = (Inr ?y, [])"
    using transpose_low_rank_clone [OF h3 disjI1, OF refl, where eng = "\<lambda>k ins a. hd ins"
        and conjugate = False and dlog = "[]"]
    by (simp add: clone_def)
  show ?thesis
    by (intro conjI) (rule h1, rule h2, rule a, rule b)
qed

text \<open>
  C9, as stated, fails: a permutation argument of matching length is not enough. For a
  tensor of rank 1 and the argument [1], of length 1, the second assertion fails and the
  call returns an error, not a clone.
\<close>

theorem transpose_low_rank_perm_out_of_range:
  "rank \<lparr>shape = [3], dtype = float32, vals = [7, 8, 9]\<rparr> = 1
   \<and> length [1 :: number] = rank \<lparr>shape = [3], dtype = float32, vals = [7, 8, 9]\<rparr>
   \<and> transpose_op echoEngine \<lparr>shape = [3], dtype = float32, vals = [7, 8, 9]\<rparr> (Some [1]) False []
        = (Inl (PermOutOfRange 1 [1]), [])
   \<and> transpose_op echoEngine \<lparr>shape = [3], dtype = float32, vals = [7, 8, 9]\<rparr> (Some [1]) False []
        \<noteq> (Inr (clone \<lparr>shape = [3], dtype = float32, vals = [7, 8, 9]\<rparr>), [])"
  by (simp add: transpose_op_def rank_def)

section \<open>Properties of multinomial\<close>

lemma inferFromImplicitShape_single: "inferFromImplicitShape [z] z = [z]"
  by (simp add: inferFromImplicitShape_def)

lemma inferFromImplicitShape_row: "inferFromImplicitShape [1, - 1] z = [1, z]"
  by (simp add: inferFromImplicitShape_def)

text \<open>
  C10. multinomial fails, with nothing dispatched, whenever the logits have fewer than 2
  elements or a rank above 2. Otherwise, with a kernel that returns a tensor of shape
  [batchSize, numSamples], the Multinomial kernel is dispatched once and the rank of the
  result is the rank of the logits: logits of rank 1 give a result of shape [numSamples],
  logits of rank 2 a result of rank 2.
\<close>

theorem multinomial_checks_and_rank:
  assumes "multinomialKernelContract eng"
  shows "(size_of logits < 2 \<or> 2 < rank logits \<longrightarrow>
            (\<exists>e. multinomial_op eng random logits numSamples seed normalized dlog = (Inl e, dlog)))
       \<and> (\<not> (size_of logits < 2 \<or> 2 < rank logits) \<longrightarrow>
            (\<exists>res a. multinomial_op eng random logits numSamples seed normalized dlog
                        = (Inr res, dlog @ [(Multinomial, a)])
                 \<and> rank res = rank logits
                 \<and> (rank logits = 1 \<longrightarrow> shape res = [numSamples])
                 \<and> (rank logits = 2 \<longrightarrow> shape res = [hd (shape logits), numSamples])))"
proof (intro conjI impI)
  assume "size_of logits < 2 \<or> 2 < rank logits"
  then show "\<exists>e. multinomial_op eng random logits numSamples seed normalized dlog = (Inl e, dlog)"
    by (auto simp: multinomial_op_def Let_def)
next
  assume ok: "\<not> (size_of logits < 2 \<or> 2 < rank logits)"
  let ?seed = "case seed of None \<Rightarrow> random | Some s \<Rightarrow> if s = 0 then random else s"
  let ?l2 = "if rank logits = 1 then reshape logits [1, - 1] else logits"
  let ?a = "MultinomialAttrs numSamples ?seed normalized"
  let ?res = "eng Multinomial [?l2] ?a"
  let ?out = "if rank logits = 1 then reshape ?res [size_of ?res] else ?res"
  have k: "shape ?res = [hd (shape ?l2), numSamples]"
    using assms unfolding multinomialKernelContract_def by blast
  have r0: "rank logits \<noteq> 0"
  proof
    assume "rank logits = 0"
    then have "size_of logits = 1" by (simp add: rank_def size_of_def)
    with ok show False by simp
  qed
  with ok have r12: "rank logits = 1 \<or> rank logits = 2" by auto
  have run: "multinomial_op eng random logits numSamples seed normalized dlog
      = (Inr ?out, dlog @ [(Multinomial, [?l2], ?a)])"
    using ok unfolding multinomial_op_def Let_def runKernel_def
    by (simp add: not_less)
  have s1: "shape ?out = [numSamples]" if "rank logits = 1"
  proof -
    have "shape ?l2 = [1, size_of logits]"
      using that by (simp add: reshape_def inferFromImplicitShape_row)
    with k have "shape ?res = [1, numSamples]" by simp
    then have "size_of ?res = numSamples" by (simp add: size_of_def)
    then show ?thesis
      using that by (simp add: reshape_def inferFromImplicitShape_single)
  qed
  have s2: "shape ?out = [hd (shape logits), numSamples]" if "rank logits = 2"
    using that k by simp
  have rk: "rank ?out = rank logits"
    using r12 s1 s2 by (auto simp: rank_def)
  show "\<exists>res a. multinomial_op eng random logits numSamples seed normalized dlog
                        = (Inr res, dlog @ [(Multinomial, a)])
                 \<and> rank res = rank logits
                 \<and> (rank logits = 1 \<longrightarrow> shape res = [numSamples])
                 \<and> (rank logits = 2 \<longrightarrow> shape res = [hd (shape logits), numSamples])"
    using run rk s1 s2 by blast
qed

theorem multinomial_checks_and_rank_witness:
  "multinomialKernelContract
     (\<lambda>k ins a. case a of MultinomialAttrs n s b \<Rightarrow> \<lparr>shape = [hd (shape (hd ins)), n], dtype = int32, vals = []\<rparr>
                 | _ \<Rightarrow> hd ins)
   \<and> size_of \<lparr>shape = [1], dtype = float32, vals = [1]\<rparr> < 2
   \<and> (\<exists>e. multinomial_op
         (\<lambda>k ins a. case a of MultinomialAttrs n s b \<Rightarrow> \<lparr>shape = [hd (shape (hd ins)), n], dtype = int32, vals = []\<rparr>
                 | _ \<Rightarrow> hd ins)
         (1 / 2) \<lparr>shape = [1], dtype = float32, vals = [1]\<rparr> 5 None False [] = (Inl e, []))
   \<and> \<not> (size_of \<lparr>shape = [3], dtype = float32, vals = [1, 2, 3]\<rparr> < 2
          \<or> 2 < rank \<lparr>shape = [3], dtype = float32, vals = [1, 2, 3]\<rparr>)
   \<and> rank \<lparr>shape = [3], dtype = float32, vals = [1, 2, 3]\<rparr> = 1
   \<and> (\<exists>res a. multinomial_op
         (\<lambda>k ins a. case a of MultinomialAttrs n s b \<Rightarrow> \<lparr>shape = [hd (shape (hd ins)), n], dtype = int32, vals = []\<rparr>
                 | _ \<Rightarrow> hd ins)
         (1 / 2) \<lparr>shape = [3], dtype = float32, vals = [1, 2, 3]\<rparr> 5 None False []
           = (Inr res, [] @ [(Multinomial, a)]) \<and> shape res = [5])"
proof -
  let ?eng = "\<lambda>k ins a. case a of MultinomialAttrs n s b \<Rightarrow> \<lparr>shape = [hd (shape (hd ins)), n], dtype = int32, vals = []\<rparr>
                 | _ \<Rightarrow> hd ins"
  let ?s = "\<lparr>shape = [1], dtype = float32, vals = [1]\<rparr>"
  let ?l = "\<lparr>shape = [3], dtype = float32, vals = [1, 2, 3]\<rparr>"
  have c: "multinomialKernelContract ?eng"
    by (simp add: multinomialKernelContract_def)
  have h1: "size_of ?s < 2" by (simp add: size_of_def)
  have h2: "\<not> (size_of ?l < 2 \<or> 2 < rank ?l)" by (simp add: size_of_def rank_def)
  have h3: "rank ?l = 1" by (simp add: rank_def)
  note t1 = multinomial_checks_and_rank [OF c, where logits = ?s and random = "1 / 2"
      and numSamples = 5 and seed = None and normalized = False and dlog = "[]"]
  note t2 = multinomial_checks_and_rank [OF c, where logits = ?l and random = "1 / 2"
      and numSamples = 5 and seed = None and normalized = False and dlog = "[]"]
  have a: "\<exists>e. multinomial_op ?eng (1 / 2) ?s 5 None False [] = (Inl e, [])"
    using t1 h1 by blast
  have b: "\<exists>res a. multinomial_op ?eng (1 / 2) ?l 5 None False []
           = (Inr res, [] @ [(Multinomial, a)]) \<and> shape res = [5]"
    using t2 h2 h3 by blast
  show ?thesis
    by (intro conjI) (rule c, rule h1, rule a, rule h2, rule h3, rule b)
qed

section \<open>The arrays of broadcastTo are left as they were\<close>

lemma alloc_cells:
  "cells (snd (alloc xs h)) a = (if a = nxt h then xs else cells h a)"
  by (simp add: alloc_def)

lemma alloc_nxt: "nxt (snd (alloc xs h)) = Suc (nxt h)"
  by (simp add: alloc_def)

lemma alloc_fst: "fst (alloc xs h) = nxt h"
  by (simp add: alloc_def)

lemma unshiftLoop_store_nxt: "nxt (unshiftLoop_store a n h) = nxt h"
proof (induction a n h rule: unshiftLoop_store.induct)
  case (1 a n h)
  show ?case
  proof (cases "length (cells h a) < n")
    case True
    with 1 show ?thesis
      by (subst unshiftLoop_store.simps) (simp add: write_cell_def)
  next
    case False
    then show ?thesis by (subst unshiftLoop_store.simps) simp
  qed
qed

lemma unshiftLoop_store_cells:
  "cells (unshiftLoop_store a n h) b = (if b = a then unshiftLoop (cells h a) n else cells h b)"
proof (induction a n h rule: unshiftLoop_store.induct)
  case (1 a n h)
  show ?case
  proof (cases "length (cells h a) < n")
    case True
    have "cells (unshiftLoop_store a n h) b
        = cells (unshiftLoop_store a n (write_cell a (1 # cells h a) h)) b"
      using True by (subst unshiftLoop_store.simps) simp
    also have "\<dots> = (if b = a then unshiftLoop (1 # cells h a) n else cells h b)"
      using 1 [OF True] by (simp add: write_cell_def)
    also have "\<dots> = (if b = a then unshiftLoop (cells h a) n else cells h b)"
      using True by (subst (2) unshiftLoop.simps) simp
    finally show ?thesis .
  next
    case False
    then show ?thesis
      by (subst unshiftLoop_store.simps, subst unshiftLoop.simps) simp
  qed
qed

lemma repsLoop_store_nxt:
  "nxt (snd (repsLoop_store i xS inS shp reps h)) = nxt h"
  by (induction i arbitrary: h) (simp_all add: write_cell_def)

lemma repsLoop_store_frame:
  "b \<noteq> reps \<Longrightarrow> cells (snd (repsLoop_store i xS inS shp reps h)) b = cells h b"
  by (induction i arbitrary: h) (simp_all add: write_cell_def)

lemma repsLoop_store_result:
  "fst (repsLoop_store i xS inS shp reps h) = Inr r \<Longrightarrow> r = (inS, reps)"
  by (induction i arbitrary: h) (auto split: if_splits)

text \<open>
  When \<open>reps\<close> is an array of its own, the loop on the store computes what the loop on
  values computes.
\<close>

lemma repsLoop_store_refines:
  assumes "reps \<noteq> inS" "reps \<noteq> shp" "reps \<noteq> xS"
  shows "(case repsLoop i (cells h xS) (cells h inS) (cells h shp) (cells h reps) of
            Inl e \<Rightarrow> fst (repsLoop_store i xS inS shp reps h) = Inl e
          | Inr r \<Rightarrow> fst (repsLoop_store i xS inS shp reps h) = Inr (inS, reps)
                    \<and> cells (snd (repsLoop_store i xS inS shp reps h)) reps = r)"
  using assms
proof (induction i arbitrary: h)
  case 0
  then show ?case by simp
next
  case (Suc i)
  let ?h' = "write_cell reps ((cells h reps)[i := 1]) h"
  have c: "cells ?h' xS = cells h xS" "cells ?h' inS = cells h inS" "cells ?h' shp = cells h shp"
    "cells ?h' reps = (cells h reps)[i := 1]"
    using Suc.prems by (simp_all add: write_cell_def)
  show ?case
  proof (cases "js_nth (cells h inS) i = js_nth (cells h shp) i")
    case True
    have st: "repsLoop_store (Suc i) xS inS shp reps h = repsLoop_store i xS inS shp reps ?h'"
      using True by simp
    have pu: "repsLoop (Suc i) (cells h xS) (cells h inS) (cells h shp) (cells h reps)
            = repsLoop i (cells ?h' xS) (cells ?h' inS) (cells ?h' shp) (cells ?h' reps)"
      using True by (simp add: c)
    show ?thesis
      unfolding st pu by (rule Suc.IH [OF Suc.prems])
  next
    case False
    show ?thesis
    proof (cases "js_nth (cells h inS) i \<noteq> Some 1")
      case True
      with False show ?thesis by simp
    next
      case F: False
      have st: "repsLoop_store (Suc i) xS inS shp reps h = repsLoop_store i xS inS shp reps h"
        using False F by simp
      have pu: "repsLoop (Suc i) (cells h xS) (cells h inS) (cells h shp) (cells h reps)
              = repsLoop i (cells h xS) (cells h inS) (cells h shp) (cells h reps)"
        using False F by simp
      show ?thesis
        unfolding st pu by (rule Suc.IH [OF Suc.prems])
    qed
  qed
qed

lemma broadcastTo_store_equal_rank:
  assumes "assertNonNegativeIntegerDimensions (cells h shp)"
    and "length (cells h shp) = length (cells h xS)"
  shows "broadcastTo_store xS shp h =
     repsLoop_store (length (cells (snd (alloc (cells h shp) h)) shp)) xS xS shp (nxt h)
       (snd (alloc (cells h shp) h))"
  using assms by (simp add: broadcastTo_store_def alloc_def)

text \<open>The three arrays that a call with a longer target allocates, one after the other.\<close>

lemma broadcastTo_store_longer:
  assumes "assertNonNegativeIntegerDimensions (cells h shp)"
    and "length (cells h xS) < length (cells h shp)"
  shows "broadcastTo_store xS shp h =
     (let h' = snd (alloc (cells h xS) h);
          h'' = unshiftLoop_store (nxt h) (length (cells h' shp)) h';
          h1 = snd (alloc (inferFromImplicitShape (cells h'' (nxt h)) (prod_list (cells h'' xS))) h'');
          h2 = snd (alloc (cells h1 shp) h1)
      in repsLoop_store (length (cells h2 shp)) xS (nxt h'') shp (nxt h1) h2)"
  using assms by (simp add: broadcastTo_store_def alloc_def Let_def)

lemma broadcastTo_store_frame:
  assumes "b < nxt h"
  shows "cells (snd (broadcastTo_store xS shp h)) b = cells h b"
proof (cases "assertNonNegativeIntegerDimensions (cells h shp)")
  case False
  then show ?thesis by (simp add: broadcastTo_store_def)
next
  case v: True
  show ?thesis
  proof (cases "length (cells h shp) < length (cells h xS)")
    case True
    with v show ?thesis by (simp add: broadcastTo_store_def)
  next
    case nl: False
    show ?thesis
    proof (cases "length (cells h xS) < length (cells h shp)")
      case False
      with nl have e: "length (cells h shp) = length (cells h xS)" by simp
      have "b \<noteq> nxt h" using assms by simp
      then show ?thesis
        unfolding broadcastTo_store_equal_rank [OF v e]
        by (simp add: repsLoop_store_frame alloc_cells)
    next
      case True
      define h' where "h' = snd (alloc (cells h xS) h)"
      define h'' where "h'' = unshiftLoop_store (nxt h) (length (cells h' shp)) h'"
      define h1 where "h1 = snd (alloc (inferFromImplicitShape (cells h'' (nxt h)) (prod_list (cells h'' xS))) h'')"
      define h2 where "h2 = snd (alloc (cells h1 shp) h1)"
      have n': "nxt h' = Suc (nxt h)" by (simp add: h'_def alloc_nxt)
      have n'': "nxt h'' = Suc (nxt h)" by (simp add: h''_def unshiftLoop_store_nxt n')
      have n1: "nxt h1 = Suc (Suc (nxt h))" by (simp add: h1_def alloc_nxt n'')
      have c': "cells h' b = cells h b" using assms by (simp add: h'_def alloc_cells)
      have c'': "cells h'' b = cells h' b" using assms by (simp add: h''_def unshiftLoop_store_cells)
      have c1: "cells h1 b = cells h'' b" using assms by (simp add: h1_def alloc_cells n'')
      have c2: "cells h2 b = cells h1 b" using assms by (simp add: h2_def alloc_cells n1)
      have "broadcastTo_store xS shp h = repsLoop_store (length (cells h2 shp)) xS (nxt h'') shp (nxt h1) h2"
        unfolding broadcastTo_store_longer [OF v True] Let_def h'_def h''_def h1_def h2_def ..
      moreover have "b \<noteq> nxt h1" using assms n1 by simp
      ultimately show ?thesis
        by (simp add: repsLoop_store_frame c' c'' c1 c2)
    qed
  qed
qed

lemma broadcastTo_store_fresh_reps:
  assumes "fst (broadcastTo_store xS shp h) = Inr (inputShape, reps)"
  shows "nxt h \<le> reps"
proof -
  have v: "assertNonNegativeIntegerDimensions (cells h shp)"
    using assms by (cases "assertNonNegativeIntegerDimensions (cells h shp)")
      (simp_all add: broadcastTo_store_def)
  have nl: "\<not> length (cells h shp) < length (cells h xS)"
    using assms v by (cases "length (cells h shp) < length (cells h xS)")
      (simp_all add: broadcastTo_store_def)
  show ?thesis
  proof (cases "length (cells h xS) < length (cells h shp)")
    case False
    with nl have e: "length (cells h shp) = length (cells h xS)" by simp
    from assms repsLoop_store_result show ?thesis
      unfolding broadcastTo_store_equal_rank [OF v e] by fastforce
  next
    case True
    from assms have "reps = nxt (snd (alloc (inferFromImplicitShape
        (cells (unshiftLoop_store (nxt h) (length (cells (snd (alloc (cells h xS) h)) shp)) (snd (alloc (cells h xS) h))) (nxt h))
        (prod_list (cells (unshiftLoop_store (nxt h) (length (cells (snd (alloc (cells h xS) h)) shp)) (snd (alloc (cells h xS) h))) xS)))
        (unshiftLoop_store (nxt h) (length (cells (snd (alloc (cells h xS) h)) shp)) (snd (alloc (cells h xS) h)))))"
      unfolding broadcastTo_store_longer [OF v True] Let_def
      using repsLoop_store_result by fastforce
    then show ?thesis
      by (simp add: alloc_nxt unshiftLoop_store_nxt)
  qed
qed

lemma broadcastTo_store_nxt: "nxt h \<le> nxt (snd (broadcastTo_store xS shp h))"
proof (cases "assertNonNegativeIntegerDimensions (cells h shp)")
  case False
  then show ?thesis by (simp add: broadcastTo_store_def)
next
  case v: True
  show ?thesis
  proof (cases "length (cells h shp) < length (cells h xS)")
    case True
    with v show ?thesis by (simp add: broadcastTo_store_def)
  next
    case nl: False
    show ?thesis
    proof (cases "length (cells h xS) < length (cells h shp)")
      case False
      with nl have e: "length (cells h shp) = length (cells h xS)" by simp
      show ?thesis
        unfolding broadcastTo_store_equal_rank [OF v e]
        by (simp add: repsLoop_store_nxt alloc_nxt)
    next
      case True
      show ?thesis
        unfolding broadcastTo_store_longer [OF v True] Let_def
        by (simp add: repsLoop_store_nxt alloc_nxt unshiftLoop_store_nxt)
    qed
  qed
qed

lemma broadcastTo_store_axes_error:
  "fst (broadcastTo_store xS shp h) = Inl e \<Longrightarrow>
   broadcastTo_store_axes xS shp h = (Inl e, snd (broadcastTo_store xS shp h))"
  by (cases "broadcastTo_store xS shp h") (simp add: broadcastTo_store_axes_def)

lemma broadcastTo_store_axes_ok:
  "fst (broadcastTo_store xS shp h) = Inr (inputShape, reps) \<Longrightarrow>
   broadcastTo_store_axes xS shp h =
     (Inr (inputShape, reps, Suc (nxt (snd (broadcastTo_store xS shp h)))),
      snd (alloc (tilingAxes (cells (snd (broadcastTo_store xS shp h)) reps))
             (snd (alloc (axisOrMinusOne (cells (snd (broadcastTo_store xS shp h)) reps))
                     (snd (broadcastTo_store xS shp h))))))"
  by (cases "broadcastTo_store xS shp h")
     (simp add: broadcastTo_store_axes_def alloc_def tilingAxes_def)

lemma broadcastTo_store_axes_frame:
  assumes "b < nxt h"
  shows "cells (snd (broadcastTo_store_axes xS shp h)) b = cells h b"
proof (cases "fst (broadcastTo_store xS shp h)")
  case (Inl e)
  show ?thesis
    unfolding broadcastTo_store_axes_error [OF Inl]
    using assms by (simp add: broadcastTo_store_frame)
next
  case (Inr r)
  obtain inputShape reps where r: "r = (inputShape, reps)" by (cases r)
  have lt: "b < nxt (snd (broadcastTo_store xS shp h))"
    using assms broadcastTo_store_nxt [of h xS shp] by simp
  show ?thesis
    unfolding broadcastTo_store_axes_ok [OF Inr [unfolded r]]
    using lt assms by (simp add: alloc_cells alloc_nxt broadcastTo_store_frame)
qed

lemma broadcastTo_store_axes_fresh:
  assumes "fst (broadcastTo_store_axes xS shp h) = Inr (inputShape, reps, axes)"
  shows "nxt h \<le> reps \<and> nxt h \<le> axes"
proof (cases "fst (broadcastTo_store xS shp h)")
  case (Inl e)
  from assms show ?thesis
    unfolding broadcastTo_store_axes_error [OF Inl] by simp
next
  case (Inr r)
  obtain i' r' where r: "r = (i', r')" by (cases r)
  note ok = Inr [unfolded r]
  from assms have eq: "reps = r'" "axes = Suc (nxt (snd (broadcastTo_store xS shp h)))"
    unfolding broadcastTo_store_axes_ok [OF ok] by simp_all
  have "nxt h \<le> r'" using ok by (rule broadcastTo_store_fresh_reps)
  moreover have "nxt h \<le> Suc (nxt (snd (broadcastTo_store xS shp h)))"
    using broadcastTo_store_nxt [of h xS shp] by simp
  ultimately show ?thesis by (simp add: eq)
qed

text \<open>
  C7. Every array that exists before the call holds after the call what it held before:
  in particular the shape array of the source and the array of the target shape, also
  when they are one and the same array, and whether the call returns or fails. The
  repetition factors and the axes are in arrays that did not exist before the call.
\<close>

theorem broadcastTo_leaves_arguments:
  assumes "xShape < nxt h" and "shp < nxt h"
  shows "cells (snd (broadcastTo_store_axes xShape shp h)) xShape = cells h xShape
       \<and> cells (snd (broadcastTo_store_axes xShape shp h)) shp = cells h shp
       \<and> (\<forall>a<nxt h. cells (snd (broadcastTo_store_axes xShape shp h)) a = cells h a)
       \<and> (\<forall>inputShape reps axes.
             fst (broadcastTo_store_axes xShape shp h) = Inr (inputShape, reps, axes)
             \<longrightarrow> nxt h \<le> reps \<and> reps \<noteq> xShape \<and> reps \<noteq> shp)"
proof -
  have f: "\<forall>a<nxt h. cells (snd (broadcastTo_store_axes xShape shp h)) a = cells h a"
    by (simp add: broadcastTo_store_axes_frame)
  have r: "nxt h \<le> reps \<and> reps \<noteq> xShape \<and> reps \<noteq> shp"
    if "fst (broadcastTo_store_axes xShape shp h) = Inr (inputShape, reps, axes)"
    for inputShape reps axes
    using broadcastTo_store_axes_fresh [OF that] assms by auto
  from f r assms show ?thesis by blast
qed

theorem broadcastTo_leaves_arguments_witness:
  "(0 :: addr) < nxt \<lparr>cells = (\<lambda>a. [])(0 := [3], 1 := [2, 3]), nxt = 2\<rparr>
   \<and> (1 :: addr) < nxt \<lparr>cells = (\<lambda>a. [])(0 := [3], 1 := [2, 3]), nxt = 2\<rparr>
   \<and> cells (snd (broadcastTo_store_axes 0 1 \<lparr>cells = (\<lambda>a. [])(0 := [3], 1 := [2, 3]), nxt = 2\<rparr>)) 0 = [3]
   \<and> cells (snd (broadcastTo_store_axes 0 1 \<lparr>cells = (\<lambda>a. [])(0 := [3], 1 := [2, 3]), nxt = 2\<rparr>)) 1 = [2, 3]"
proof -
  let ?h = "\<lparr>cells = (\<lambda>a. [])(0 := [3], 1 := [2, 3 :: number]), nxt = 2\<rparr>"
  have h1: "(0 :: addr) < nxt ?h" by simp
  have h2: "(1 :: addr) < nxt ?h" by simp
  from broadcastTo_leaves_arguments [OF h1 h2] h1 h2 show ?thesis
    by simp
qed

text \<open>
  The call on the store computes what the call on values computes: the same error, or
  the addresses of arrays that hold the shape of the input and the repetition factors.
\<close>

lemma broadcastTo_store_refines:
  assumes a: "xS < nxt h" "shp < nxt h" and sx: "shape x = cells h xS"
  shows "case broadcastTo_reps x (cells h shp) of
           Inl e \<Rightarrow> fst (broadcastTo_store xS shp h) = Inl e
         | Inr (input, reps) \<Rightarrow>
             \<exists>ai ar. fst (broadcastTo_store xS shp h) = Inr (ai, ar)
               \<and> cells (snd (broadcastTo_store xS shp h)) ai = shape input
               \<and> cells (snd (broadcastTo_store xS shp h)) ar = reps"
proof (cases "assertNonNegativeIntegerDimensions (cells h shp)")
  case False
  then show ?thesis by (simp add: broadcastTo_store_def broadcastTo_reps_def)
next
  case v: True
  let ?T = "cells h shp"
  show ?thesis
  proof (cases "length ?T < length (cells h xS)")
    case True
    with v sx show ?thesis by (simp add: broadcastTo_store_def broadcastTo_reps_def rank_def)
  next
    case nl: False
    show ?thesis
    proof (cases "length (cells h xS) < length ?T")
      case False
      with nl have e: "length ?T = length (cells h xS)" by simp
      let ?h2 = "snd (alloc ?T h)"
      have ne: "nxt h \<noteq> xS" "nxt h \<noteq> shp" using a by simp_all
      have c: "cells ?h2 xS = shape x" "cells ?h2 shp = ?T" "cells ?h2 (nxt h) = ?T"
        using a sx by (simp_all add: alloc_cells)
      have st: "broadcastTo_store xS shp h = repsLoop_store (length ?T) xS xS shp (nxt h) ?h2"
        unfolding broadcastTo_store_equal_rank [OF v e] c ..
      have pu: "broadcastTo_reps x ?T =
          (case repsLoop (length ?T) (shape x) (shape x) ?T ?T of
             Inl e \<Rightarrow> Inl e | Inr reps \<Rightarrow> Inr (x, reps))"
        using v e sx by (simp add: broadcastTo_reps_def rank_def)
      note rf = repsLoop_store_refines [OF ne(1) ne(2) ne(1), of "length ?T" ?h2, unfolded c]
      have fr: "cells (snd (repsLoop_store (length ?T) xS xS shp (nxt h) ?h2)) xS = shape x"
        using ne by (simp add: repsLoop_store_frame c)
      show ?thesis
      proof (cases "repsLoop (length ?T) (shape x) (shape x) ?T ?T")
        case (Inl e)
        with rf show ?thesis by (simp add: st pu)
      next
        case (Inr r)
        with rf fr show ?thesis by (simp add: st pu)
      qed
    next
      case True
      define h' where "h' = snd (alloc (cells h xS) h)"
      define h'' where "h'' = unshiftLoop_store (nxt h) (length (cells h' shp)) h'"
      define h1 where "h1 = snd (alloc (inferFromImplicitShape (cells h'' (nxt h)) (prod_list (cells h'' xS))) h'')"
      define h2 where "h2 = snd (alloc (cells h1 shp) h1)"
      let ?input = "reshape x (unshiftLoop (shape x) (length ?T))"
      have n': "nxt h' = Suc (nxt h)" by (simp add: h'_def alloc_nxt)
      have n'': "nxt h'' = Suc (nxt h)" by (simp add: h''_def unshiftLoop_store_nxt n')
      have n1: "nxt h1 = Suc (Suc (nxt h))" by (simp add: h1_def alloc_nxt n'')
      have s': "cells h' shp = ?T" "cells h' xS = shape x" "cells h' (nxt h) = shape x"
        using a sx by (simp_all add: h'_def alloc_cells)
      have s'': "cells h'' shp = ?T" "cells h'' xS = shape x"
        "cells h'' (nxt h) = unshiftLoop (shape x) (length ?T)"
        using a by (simp_all add: h''_def unshiftLoop_store_cells s')
      have s1: "cells h1 shp = ?T" "cells h1 xS = shape x" "cells h1 (Suc (nxt h)) = shape ?input"
        using a by (simp_all add: h1_def alloc_cells n'' s'' reshape_def size_of_def)
      have s2: "cells h2 shp = ?T" "cells h2 xS = shape x" "cells h2 (Suc (nxt h)) = shape ?input"
        "cells h2 (Suc (Suc (nxt h))) = ?T"
        using a by (simp_all add: h2_def alloc_cells n1 s1)
      have st: "broadcastTo_store xS shp h
          = repsLoop_store (length ?T) xS (Suc (nxt h)) shp (Suc (Suc (nxt h))) h2"
      proof -
        have "broadcastTo_store xS shp h
            = repsLoop_store (length (cells h2 shp)) xS (nxt h'') shp (nxt h1) h2"
          unfolding broadcastTo_store_longer [OF v True] Let_def h'_def h''_def h1_def h2_def ..
        then show ?thesis by (simp add: s2 n'' n1)
      qed
      have pu: "broadcastTo_reps x ?T =
          (case repsLoop (length ?T) (shape x) (shape ?input) ?T ?T of
             Inl e \<Rightarrow> Inl e | Inr reps \<Rightarrow> Inr (?input, reps))"
      proof -
        have "length (shape x) < length ?T" using True sx by simp
        with v show ?thesis by (simp add: broadcastTo_reps_def rank_def Let_def)
      qed
      have ne: "Suc (Suc (nxt h)) \<noteq> Suc (nxt h)" "Suc (Suc (nxt h)) \<noteq> shp" "Suc (Suc (nxt h)) \<noteq> xS"
        using a by simp_all
      note rf = repsLoop_store_refines [OF ne, of "length ?T" h2, unfolded s2]
      have fr: "cells (snd (repsLoop_store (length ?T) xS (Suc (nxt h)) shp (Suc (Suc (nxt h))) h2))
                  (Suc (nxt h)) = shape ?input"
        by (simp add: repsLoop_store_frame s2)
      show ?thesis
      proof (cases "repsLoop (length ?T) (shape x) (shape ?input) ?T ?T")
        case (Inl e)
        with rf show ?thesis by (simp add: st pu)
      next
        case (Inr r)
        with rf fr show ?thesis by (simp add: st pu)
      qed
    qed
  qed
qed

end
